theory Spec2Isabelle
  imports Main "HOL-Library.AList"
begin

section \<open>JavaScript values with reference identity\<close>

text \<open>
  The store library (\<^verbatim>\<open>src/libs/store/base.ts\<close>, \<^verbatim>\<open>hooks.ts\<close>) decides what to do by
  comparing references: \<^verbatim>\<open>state !== previousState\<close>, \<^verbatim>\<open>state[key] !== previousState[key]\<close>.
  Every object, array and Error value therefore carries the address it was allocated at;
  primitives carry their value only. Numbers are the integers (no \<^verbatim>\<open>NaN\<close>, no fractions).
\<close>

datatype jsval =
    VUndef
  | VNull
  | VBool bool
  | VNum int
  | VStr string
  | VErr nat string
  | VArr nat "jsval list"
  | VObj nat "(string \<times> jsval) list"

type_synonym props = "(string \<times> jsval) list"

text \<open>A state is an object: \<^verbatim>\<open>BaseState = Record<string, unknown>\<close>.\<close>

record obj =
  ref :: nat
  props :: props

text \<open>\<^verbatim>\<open>a === b\<close>: by value on primitives, by address on objects, arrays and errors.\<close>

definition strict_eq :: "jsval \<Rightarrow> jsval \<Rightarrow> bool" where
  "strict_eq a b =
     (case a of
        VErr r _ \<Rightarrow> (case b of VErr r' _ \<Rightarrow> r = r' | _ \<Rightarrow> False)
      | VArr r _ \<Rightarrow> (case b of VArr r' _ \<Rightarrow> r = r' | _ \<Rightarrow> False)
      | VObj r _ \<Rightarrow> (case b of VObj r' _ \<Rightarrow> r = r' | _ \<Rightarrow> False)
      | _ \<Rightarrow> a = b)"

text \<open>\<^verbatim>\<open>o[key]\<close> on an object: \<^verbatim>\<open>undefined\<close> when the key is absent.\<close>

definition lookup :: "props \<Rightarrow> string \<Rightarrow> jsval" where
  "lookup ps k = (case map_of ps k of None \<Rightarrow> VUndef | Some v \<Rightarrow> v)"

definition js_get :: "obj \<Rightarrow> string \<Rightarrow> jsval" where
  "js_get s k = lookup (props s) k"

definition has_key :: "props \<Rightarrow> string \<Rightarrow> bool" where
  "has_key ps k = (k \<in> set (map fst ps))"

text \<open>
  \<^verbatim>\<open>Object.assign(dest, src)\<close> on the property lists: each property of \<^verbatim>\<open>src\<close>, in order,
  overwrites the property of that name or is added at the end.
\<close>

definition Object_assign :: "props \<Rightarrow> props \<Rightarrow> props" where
  "Object_assign dest src = fold (\<lambda>(k, v). AList.update k v) src dest"

text \<open>\<^verbatim>\<open>String(v)\<close>, used by \<^verbatim>\<open>new Error(String(error))\<close>.\<close>

fun digits :: "nat \<Rightarrow> string" where
  "digits n = (if n < 10 then [char_of (48 + n)] else digits (n div 10) @ [char_of (48 + n mod 10)])"

definition int_String :: "int \<Rightarrow> string" where
  "int_String i = (if i < 0 then CHR ''-'' # digits (nat (- i)) else digits (nat i))"

fun join_comma :: "string list \<Rightarrow> string" where
  "join_comma [] = []"
| "join_comma [s] = s"
| "join_comma (s # ss) = s @ '','' @ join_comma ss"

fun js_String :: "jsval \<Rightarrow> string" where
  "js_String VUndef = ''undefined''"
| "js_String VNull = ''null''"
| "js_String (VBool b) = (if b then ''true'' else ''false'')"
| "js_String (VNum i) = int_String i"
| "js_String (VStr s) = s"
| "js_String (VErr _ m) = (if m = [] then ''Error'' else ''Error: '' @ m)"
| "js_String (VArr _ xs) =
     join_comma (map (\<lambda>x. if x = VUndef \<or> x = VNull then [] else js_String x) xs)"
| "js_String (VObj _ _) = ''[object Object]''"

section \<open>The deepmerge library, as \<^verbatim>\<open>deepMergeState\<close> calls it\<close>

text \<open>
  Modelled from the spec: the npm package \<^verbatim>\<open>deepmerge\<close> that \<^verbatim>\<open>deepMergeState\<close> imports is not
  part of the repository's sources. The spec (4.2, Deep merge) asks for a recursive merge by
  key in which objects are merged key by key, arrays are merged by the policy of the call, and
  neither input is mutated; the definitions below follow the package's \<^verbatim>\<open>deepmerge\<close>,
  \<^verbatim>\<open>mergeObject\<close> and \<^verbatim>\<open>cloneUnlessOtherwiseSpecified\<close> on objects, arrays and errors.
  The allocator (the next free address) is threaded through, so that every object the merge
  creates has an address of its own.
\<close>

datatype arrayMergePolicy = Concat | Replace | MergeByIndex

record DeepMergeOptions =
  arrayMerge :: "arrayMergePolicy option"
  clone :: "bool option"

text \<open>
  The \<^verbatim>\<open>arrayMerge\<close> callback of \<^verbatim>\<open>deepMergeState\<close> (base.ts, lines 40 to 48):
  \<^verbatim>\<open>concat\<close> builds a new array \<^verbatim>\<open>[...destinationArray, ...sourceArray]\<close>; \<^verbatim>\<open>replace\<close>
  returns \<^verbatim>\<open>sourceArray\<close>; anything else returns \<^verbatim>\<open>sourceArray\<close> too.
\<close>

definition arrayMerge_callback ::
  "arrayMergePolicy \<Rightarrow> nat \<Rightarrow> jsval list \<Rightarrow> nat \<Rightarrow> jsval list \<Rightarrow> jsval \<times> nat" where
  "arrayMerge_callback policy n destinationArray r sourceArray =
     (if policy = Concat then (VArr n (destinationArray @ sourceArray), Suc n)
      else if policy = Replace then (VArr r sourceArray, n)
      else (VArr r sourceArray, n))"

text \<open>Names every plain object inherits from \<^verbatim>\<open>Object.prototype\<close>.\<close>

definition proto_keys :: "string list" where
  "proto_keys = [''constructor'', ''__proto__'', ''hasOwnProperty'', ''isPrototypeOf'',
     ''propertyIsEnumerable'', ''toLocaleString'', ''toString'', ''valueOf'',
     ''__defineGetter__'', ''__defineSetter__'', ''__lookupGetter__'', ''__lookupSetter__'']"

definition error_keys :: "string list" where
  "error_keys = [''message'', ''name'', ''stack'', ''cause'']"

fun is_mergeable :: "jsval \<Rightarrow> bool" where
  "is_mergeable (VArr _ _) = True"
| "is_mergeable (VObj _ _) = True"
| "is_mergeable (VErr _ _) = True"
| "is_mergeable _ = False"

fun is_array :: "jsval \<Rightarrow> bool" where
  "is_array (VArr _ _) = True"
| "is_array _ = False"

text \<open>
  Modelled from the spec: \<^verbatim>\<open>cloneUnlessOtherwiseSpecified\<close> of the deepmerge package (the merge
  must not share what it clones).
  \<^verbatim>\<open>cloneUnlessOtherwiseSpecified(value)\<close> is \<^verbatim>\<open>deepmerge(emptyTarget(value), value)\<close> on a
  mergeable value when \<^verbatim>\<open>clone\<close> is not false. On an array that is the callback applied to
  \<^verbatim>\<open>[]\<close> and the array; on an object it is \<^verbatim>\<open>mergeObject({}, value)\<close>, which copies each own
  property that \<^verbatim>\<open>{}\<close> does not inherit, cloning its value; an Error has no enumerable
  property.
\<close>

fun cloneUnlessOtherwiseSpecified ::
      "arrayMergePolicy \<Rightarrow> bool \<Rightarrow> nat \<Rightarrow> jsval \<Rightarrow> jsval \<times> nat"
  and clone_properties ::
      "arrayMergePolicy \<Rightarrow> bool \<Rightarrow> nat \<Rightarrow> props \<Rightarrow> props \<Rightarrow> props \<times> nat" where
  "cloneUnlessOtherwiseSpecified am cl n (VArr r xs) =
     (if cl then arrayMerge_callback am n [] r xs else (VArr r xs, n))"
| "cloneUnlessOtherwiseSpecified am cl n (VObj r ps) =
     (if cl then (let (d, n') = clone_properties am cl (Suc n) ps [] in (VObj n d, n'))
      else (VObj r ps, n))"
| "cloneUnlessOtherwiseSpecified am cl n (VErr r m) =
     (if cl then (VObj n [], Suc n) else (VErr r m, n))"
| "cloneUnlessOtherwiseSpecified am cl n v = (v, n)"
| "clone_properties am cl n [] destination = (destination, n)"
| "clone_properties am cl n ((k, v) # ps) destination =
     (if k \<in> set proto_keys then clone_properties am cl n ps destination
      else (let (v', n') = cloneUnlessOtherwiseSpecified am cl n v
            in clone_properties am cl n' ps (AList.update k v' destination)))"

text \<open>
  Modelled from the spec: the first loop of the package's \<^verbatim>\<open>mergeObject\<close>, in which every own
  property of a mergeable target is cloned into the destination.
\<close>

fun copy_target ::
  "arrayMergePolicy \<Rightarrow> bool \<Rightarrow> nat \<Rightarrow> props \<Rightarrow> props \<Rightarrow> props \<times> nat" where
  "copy_target am cl n [] destination = (destination, n)"
| "copy_target am cl n ((k, v) # ps) destination =
     (let (v', n') = cloneUnlessOtherwiseSpecified am cl n v
      in copy_target am cl n' ps (AList.update k v' destination))"

text \<open>
  Modelled from the spec: the package's guards on keys.
  \<^verbatim>\<open>propertyIsOnObject(target, key)\<close> is \<^verbatim>\<open>key in target\<close>, false when \<^verbatim>\<open>in\<close> throws (on a
  primitive); \<^verbatim>\<open>propertyIsUnsafe\<close> holds of a key that is on the target but is not an own
  enumerable property of it.
\<close>

fun own_props :: "jsval \<Rightarrow> props" where
  "own_props (VObj _ ps) = ps"
| "own_props _ = []"

fun propertyIsOnObject :: "jsval \<Rightarrow> string \<Rightarrow> bool" where
  "propertyIsOnObject (VObj _ ps) k = (has_key ps k \<or> k \<in> set proto_keys)"
| "propertyIsOnObject (VErr _ _) k = (k \<in> set error_keys \<or> k \<in> set proto_keys)"
| "propertyIsOnObject _ k = False"

definition propertyIsUnsafe :: "jsval \<Rightarrow> string \<Rightarrow> bool" where
  "propertyIsUnsafe target k = (propertyIsOnObject target k \<and> \<not> has_key (own_props target) k)"

text \<open>
  Modelled from the spec: the package's \<^verbatim>\<open>deepmerge\<close> and the second loop of \<^verbatim>\<open>mergeObject\<close>
  (objects are merged key by key, recursively; arrays by the policy).
  \<^verbatim>\<open>deepmerge(target, source)\<close> for a mergeable source: the source is cloned when exactly one
  of the two is an array, two arrays go to the callback, and otherwise \<^verbatim>\<open>mergeObject\<close>
  copies the target and then merges the source's properties over it, recursively where the
  key is on the target and the source's value is mergeable. The library applies it to
  mergeable sources only (\<^verbatim>\<open>deepMergeState\<close> passes an object, the recursion checks
  \<^verbatim>\<open>isMergeableObject\<close>); the last equation is never reached from there.
\<close>

fun deepmerge ::
      "arrayMergePolicy \<Rightarrow> bool \<Rightarrow> nat \<Rightarrow> jsval \<Rightarrow> jsval \<Rightarrow> jsval \<times> nat"
  and merge_source ::
      "arrayMergePolicy \<Rightarrow> bool \<Rightarrow> nat \<Rightarrow> jsval \<Rightarrow> props \<Rightarrow> props \<Rightarrow> props \<times> nat" where
  "deepmerge am cl n target (VArr r ys) =
     (case target of
        VArr _ xs \<Rightarrow> arrayMerge_callback am n xs r ys
      | _ \<Rightarrow> cloneUnlessOtherwiseSpecified am cl n (VArr r ys))"
| "deepmerge am cl n target (VObj r ps) =
     (if is_array target then cloneUnlessOtherwiseSpecified am cl n (VObj r ps)
      else (let (d0, n0) = copy_target am cl (Suc n) (own_props target) [];
                (d, n') = merge_source am cl n0 target ps d0
            in (VObj n d, n')))"
| "deepmerge am cl n target (VErr r m) =
     (if is_array target then cloneUnlessOtherwiseSpecified am cl n (VErr r m)
      else (let (d0, n0) = copy_target am cl (Suc n) (own_props target) []
            in (VObj n d0, n0)))"
| "deepmerge am cl n target v = (v, n)"
| "merge_source am cl n target [] destination = (destination, n)"
| "merge_source am cl n target ((k, v) # ps) destination =
     (if propertyIsUnsafe target k then merge_source am cl n target ps destination
      else if propertyIsOnObject target k \<and> is_mergeable v then
        (let (v', n') = deepmerge am cl n (lookup (own_props target) k) v
         in merge_source am cl n' target ps (AList.update k v' destination))
      else
        (let (v', n') = cloneUnlessOtherwiseSpecified am cl n v
         in merge_source am cl n' target ps (AList.update k v' destination)))"

section \<open>deepMergeState (base.ts, lines 27 to 52)\<close>

text \<open>
  \<^verbatim>\<open>PartialState<T>\<close> is a partial object or a function \<^verbatim>\<open>(state: Draft<T>) => void\<close>. The
  function is modelled by the edit it makes to the properties of the object it is handed.
\<close>

datatype partial = PObj obj | PFun "props \<Rightarrow> props"

definition default_merge_options :: DeepMergeOptions where
  "default_merge_options = \<lparr>arrayMerge = None, clone = None\<rparr>"

text \<open>A state as a value, and back (\<^verbatim>\<open>deepmerge\<close> of two objects returns an object).\<close>

definition val_of :: "obj \<Rightarrow> jsval" where
  "val_of s = VObj (ref s) (props s)"

fun obj_of :: "jsval \<Rightarrow> obj" where
  "obj_of (VObj r ps) = \<lparr>ref = r, props = ps\<rparr>"
| "obj_of _ = \<lparr>ref = 0, props = []\<rparr>"

text \<open>
  Takes and returns the allocator. A function-valued partial gives \<^verbatim>\<open>{ ...current }\<close>;
  otherwise the result is \<^verbatim>\<open>deepmerge(current, partial, mergeOptions)\<close>.
\<close>

definition deepMergeState :: "nat \<Rightarrow> obj \<Rightarrow> partial \<Rightarrow> DeepMergeOptions \<Rightarrow> obj \<times> nat" where
  "deepMergeState n current partial options =
     (let am = (case arrayMerge options of None \<Rightarrow> MergeByIndex | Some a \<Rightarrow> a);
          cl = (case clone options of None \<Rightarrow> True | Some c \<Rightarrow> c)
      in case partial of
           PFun f \<Rightarrow> (\<lparr>ref = n, props = props current\<rparr>, Suc n)
         | PObj p \<Rightarrow>
             (let (v, n') = deepmerge am cl n (val_of current) (val_of p) in (obj_of v, n')))"

section \<open>The container: state, subscribers, notification\<close>

text \<open>
  Modelled from the spec: the container core is zustand's vanilla store, an external package
  that is not part of the repository's sources. The spec (3, 4.1, 4.2) fixes its contract:
  \<^verbatim>\<open>getState\<close> returns the current reference; \<^verbatim>\<open>setState(partial, replace)\<close> does nothing when
  the value it is given is reference-equal to the current state, and otherwise stores either
  that value (replace) or a new object holding the one-level merge of it into the current
  state, and then calls every subscriber, in registration order, with
  \<^verbatim>\<open>(newState, previousState)\<close>; a function is run as a draft mutation whose edits become a new
  state value; \<^verbatim>\<open>subscribe\<close> adds a callback to an ordered collection without duplicates.

  Subscribers are the three kinds of function the library registers. A callback of the
  caller is known by its identity and records each of its invocations in \<open>calls\<close>.
\<close>

datatype listener =
    Direct nat
  | FieldWatch nat string nat
  | HistoryWatch nat nat

datatype call =
    StateCall nat obj obj
  | FieldCall nat jsval jsval
  | ChangeCall nat

record historyRef =
  past :: "obj list"
  present :: obj
  future :: "obj list"

record world =
  state :: obj
  listeners :: "listener list"
  next_ref :: nat
  calls :: "call list"
  history :: historyRef
  maxSize :: int

text \<open>\<^verbatim>\<open>xs.slice(start)\<close> for an integer \<^verbatim>\<open>start\<close>; \<^verbatim>\<open>-0\<close> is \<^verbatim>\<open>0\<close>.\<close>

definition slice_from :: "int \<Rightarrow> 'a list \<Rightarrow> 'a list" where
  "slice_from start xs =
     (if start < 0 then drop (nat (max (int (length xs) + start) 0)) xs
      else drop (nat (min start (int (length xs)))) xs)"

text \<open>
  What each kind of subscriber does when called with \<^verbatim>\<open>(state, previousState)\<close>:
  \<^item> \<open>Direct cb\<close>: the caller's callback \<open>cb\<close> itself;
  \<^item> \<open>FieldWatch c key cb\<close>: the closure \<^verbatim>\<open>wrappedCallback\<close> of \<^verbatim>\<open>subscribeTo\<close>
    (base.ts, lines 231 to 235);
  \<^item> \<open>HistoryWatch c cb\<close>: the closure that \<^verbatim>\<open>subscribe\<close> of \<^verbatim>\<open>useHistoryState\<close>
    registers (hooks.ts, lines 397 to 404).
\<close>

fun notify :: "obj \<Rightarrow> obj \<Rightarrow> listener \<Rightarrow> world \<Rightarrow> world" where
  "notify s previousState (Direct cb) w = w\<lparr>calls := calls w @ [StateCall cb s previousState]\<rparr>"
| "notify s previousState (FieldWatch c key cb) w =
     (if \<not> strict_eq (js_get s key) (js_get previousState key)
      then w\<lparr>calls := calls w @ [FieldCall cb (js_get s key) (js_get previousState key)]\<rparr>
      else w)"
| "notify s previousState (HistoryWatch c cb) w =
     (let w' = (if ref s \<noteq> ref previousState
                then w\<lparr>history :=
                       \<lparr>past = slice_from (- maxSize w) (past (history w) @ [previousState]),
                        present = s,
                        future = []\<rparr>\<rparr>
                else w)
      in w'\<lparr>calls := calls w' @ [ChangeCall cb]\<rparr>)"

text \<open>The object literal \<^verbatim>\<open>{ ... }\<close>: a new object at the next free address.\<close>

definition object_literal :: "world \<Rightarrow> props \<Rightarrow> obj \<times> world" where
  "object_literal w ps = (\<lparr>ref = next_ref w, props = ps\<rparr>, w\<lparr>next_ref := Suc (next_ref w)\<rparr>)"

text \<open>Modelled from the spec: the container's \<^verbatim>\<open>getState\<close> returns the current state reference.\<close>

definition store_getState :: "world \<Rightarrow> obj" where
  "store_getState w = state w"

text \<open>
  Modelled from the spec: the draft mutation of a function-valued partial (4.2). The
  function's edits to the properties of the current state make a new object; with no edit the
  current state is returned.
\<close>

definition produce :: "world \<Rightarrow> (props \<Rightarrow> props) \<Rightarrow> obj \<times> world" where
  "produce w f =
     (if f (props (state w)) = props (state w) then (state w, w)
      else object_literal w (f (props (state w))))"

text \<open>
  Modelled from the spec: the container's \<^verbatim>\<open>setState(partial, replace)\<close> (4.1, 4.2). A value
  reference-equal to the current state changes nothing and notifies nobody; otherwise the new
  state is that value (replace) or a new object with the current properties overwritten by
  the value's, and every subscriber is called in registration order.
\<close>

definition store_setState :: "world \<Rightarrow> partial \<Rightarrow> bool \<Rightarrow> world" where
  "store_setState w partial replace =
     (let (nextState, w0) = (case partial of PFun f \<Rightarrow> produce w f | PObj p \<Rightarrow> (p, w))
      in if ref nextState = ref (state w0) then w0
         else
           (let previousState = state w0;
                (s, w1) = (if replace then (nextState, w0)
                           else object_literal w0 (Object_assign (props previousState) (props nextState)));
                w2 = w1\<lparr>state := s\<rparr>
            in fold (notify s previousState) (listeners w2) w2))"

text \<open>
  Modelled from the spec: the container's \<^verbatim>\<open>subscribe\<close> adds the callback at the end unless
  that very function is registered already; the closure it returns removes it.
\<close>

definition store_subscribe :: "world \<Rightarrow> listener \<Rightarrow> world" where
  "store_subscribe w l =
     (if l \<in> set (listeners w) then w else w\<lparr>listeners := listeners w @ [l]\<rparr>)"

definition store_unsubscribe :: "world \<Rightarrow> listener \<Rightarrow> world" where
  "store_unsubscribe w l = w\<lparr>listeners := removeAll l (listeners w)\<rparr>"

text \<open>
  \<^verbatim>\<open>createStore(initialState)\<close> (base.ts, lines 59 to 86): a container holding the caller's
  object, with no subscriber. The allocator starts above the object's address; the history
  record is the one a tracker would start from.
\<close>

definition createStore :: "obj \<Rightarrow> world" where
  "createStore initialState =
     \<lparr>state = initialState, listeners = [], next_ref = Suc (ref initialState), calls = [],
      history = \<lparr>past = [], present = initialState, future = []\<rparr>, maxSize = 10\<rparr>"

section \<open>StoreHelper (base.ts, lines 151 to 275)\<close>

text \<open>
  \<^verbatim>\<open>MergeStrategy = 'shallow' | 'deep' | 'replace'\<close>; the last is written \<open>ReplaceAll\<close>
  here, \<open>Replace\<close> being the array policy.
\<close>

datatype MergeStrategy = Shallow | Deep | ReplaceAll

record SubscribeOptions =
  fireImmediately :: "bool option"

definition getState :: "world \<Rightarrow> obj" where
  "getState w = store_getState w"

definition setState :: "world \<Rightarrow> partial \<Rightarrow> world" where
  "setState w partial = store_setState w partial False"

definition replaceState :: "world \<Rightarrow> obj \<Rightarrow> world" where
  "replaceState w s = store_setState w (PObj s) True"

definition mergeState :: "world \<Rightarrow> partial \<Rightarrow> MergeStrategy \<Rightarrow> world" where
  "mergeState w partial strategy =
     (let current = getState w
      in case strategy of
           Shallow \<Rightarrow> setState w partial
         | Deep \<Rightarrow>
             (let (merged, n) = deepMergeState (next_ref w) current partial default_merge_options
              in setState (w\<lparr>next_ref := n\<rparr>) (PObj merged))
         | ReplaceAll \<Rightarrow>
             (case partial of
                PFun f \<Rightarrow>
                  (let (draft, w') = object_literal w (props current);
                       draft' = draft\<lparr>props := f (props draft)\<rparr>
                   in setState w' (PObj draft'))
              | PObj p \<Rightarrow> replaceState w p))"

definition resetState :: "world \<Rightarrow> obj \<Rightarrow> world" where
  "resetState w initialState = replaceState w initialState"

text \<open>
  \<^verbatim>\<open>subscribe\<close> and \<^verbatim>\<open>subscribeTo\<close> return the subscriber they registered, which stands for
  the unsubscribe closure the code returns, and the new world.
\<close>

definition subscribe :: "world \<Rightarrow> nat \<Rightarrow> SubscribeOptions \<Rightarrow> listener \<times> world" where
  "subscribe w callback options =
     (let fire = (case fireImmediately options of None \<Rightarrow> False | Some b \<Rightarrow> b);
          w' = (if fire then w\<lparr>calls := calls w @ [StateCall callback (getState w) (getState w)]\<rparr>
                else w)
      in (Direct callback, store_subscribe w' (Direct callback)))"

definition subscribeTo :: "world \<Rightarrow> string \<Rightarrow> nat \<Rightarrow> SubscribeOptions \<Rightarrow> listener \<times> world" where
  "subscribeTo w key callback options =
     (let fire = (case fireImmediately options of None \<Rightarrow> False | Some b \<Rightarrow> b);
          wrappedCallback = FieldWatch (next_ref w) key callback;
          w0 = w\<lparr>next_ref := Suc (next_ref w)\<rparr>;
          w' = (if fire
                then (let current = getState w0
                      in w0\<lparr>calls := calls w0 @ [FieldCall callback (js_get current key) (js_get current key)]\<rparr>)
                else w0)
      in (wrappedCallback, store_subscribe w' wrappedCallback))"

section \<open>The hybrid store and wrapAsyncOperation (base.ts, lines 318 to 375)\<close>

text \<open>
  \<^verbatim>\<open>createHybridStore(initialState)\<close> wraps the caller's state in
  \<^verbatim>\<open>{ data, _isLoading: false, _error: null, _lastUpdate: Date.now() }\<close>; \<open>now\<close> is the clock.
\<close>

definition createHybridStore :: "obj \<Rightarrow> int \<Rightarrow> world" where
  "createHybridStore initialState now =
     createStore \<lparr>ref = Suc (ref initialState),
                  props = [(''data'', val_of initialState), (''_isLoading'', VBool False),
                           (''_error'', VNull), (''_lastUpdate'', VNum now)]\<rparr>"

text \<open>
  An asynchronous operation settles with a result or with a thrown value, and may itself act
  on the world before it settles (the example stores call \<^verbatim>\<open>setState\<close> inside it).
\<close>

datatype outcome = Resolved jsval | Rejected jsval

record AsyncOptions =
  setLoading :: bool
  setError :: bool

definition default_async_options :: AsyncOptions where
  "default_async_options = \<lparr>setLoading = True, setError = True\<rparr>"

fun instanceof_Error :: "jsval \<Rightarrow> bool" where
  "instanceof_Error (VErr _ _) = True"
| "instanceof_Error _ = False"

definition new_Error :: "world \<Rightarrow> string \<Rightarrow> jsval \<times> world" where
  "new_Error w message = (VErr (next_ref w) message, w\<lparr>next_ref := Suc (next_ref w)\<rparr>)"

text \<open>\<^verbatim>\<open>store.setState({ ... })\<close> with an object literal as its argument.\<close>

definition setState_literal :: "world \<Rightarrow> props \<Rightarrow> world" where
  "setState_literal w ps = (let (p, wa) = object_literal w ps in store_setState wa (PObj p) False)"

text \<open>
  The result is \<open>Inr result\<close> when the promise resolves and \<open>Inl errorObj\<close> when it
  rejects with \<^verbatim>\<open>errorObj\<close>; the world returned with it is the world at that moment.
  \<open>now\<close> is what \<^verbatim>\<open>Date.now()\<close> returns when the operation has settled.
\<close>

definition wrapAsyncOperation ::
  "world \<Rightarrow> (world \<Rightarrow> outcome \<times> world) \<Rightarrow> AsyncOptions \<Rightarrow> int \<Rightarrow> (jsval + jsval) \<times> world" where
  "wrapAsyncOperation w operation options now =
     (let w1 = (if setLoading options
                then setState_literal w [(''_isLoading'', VBool True), (''_error'', VNull)]
                else w);
          (settled, w2) = operation w1
      in case settled of
           Resolved result \<Rightarrow>
             (Inr result,
              setState_literal w2
                [(''_isLoading'', VBool False), (''_error'', VNull), (''_lastUpdate'', VNum now)])
         | Rejected error \<Rightarrow>
             (let (errorObj, w3) = (if instanceof_Error error then (error, w2)
                                    else new_Error w2 (js_String error))
              in if setError options
                 then (Inl errorObj,
                       setState_literal w3
                         [(''_isLoading'', VBool False), (''_error'', errorObj),
                          (''_lastUpdate'', VNum now)])
                 else (Inl errorObj, w3)))"

section \<open>useHistoryState (hooks.ts, lines 389 to 438)\<close>

text \<open>
  The hook creates \<^verbatim>\<open>historyRef\<close> from the current state and hands its \<^verbatim>\<open>subscribe\<close> to
  \<^verbatim>\<open>useSyncExternalStore\<close>, which calls it with its own change callback \<open>onStoreChange\<close>
  once the component is mounted: the closure registered then is \<open>HistoryWatch\<close>.
  The model follows one invocation of the hook: the \<^verbatim>\<open>historyRef\<close> it creates, the listener
  its \<^verbatim>\<open>subscribe\<close> registers, and the \<^verbatim>\<open>undo\<close>, \<^verbatim>\<open>redo\<close>, \<^verbatim>\<open>canUndo\<close> and \<^verbatim>\<open>canRedo\<close>
  closures it returns, which read and write that \<^verbatim>\<open>historyRef\<close>. The parameter \<^verbatim>\<open>maxSize\<close>
  (10 when omitted) is given explicitly.
\<close>

definition useHistoryState :: "world \<Rightarrow> int \<Rightarrow> nat \<Rightarrow> world" where
  "useHistoryState w maxSize_arg onStoreChange =
     (let w0 = w\<lparr>history := \<lparr>past = [], present = store_getState w, future = []\<rparr>,
                  maxSize := maxSize_arg\<rparr>;
          w1 = w0\<lparr>next_ref := Suc (next_ref w0)\<rparr>
      in store_subscribe w1 (HistoryWatch (next_ref w0) onStoreChange))"

text \<open>
  \<^verbatim>\<open>past.pop()\<close> is \<^verbatim>\<open>undefined\<close> on an empty array, which is falsy; a state is an object,
  which is truthy.
\<close>

definition undo :: "world \<Rightarrow> bool \<times> world" where
  "undo w =
     (let h = history w
      in if past h = [] then (False, w)
         else
           (let previous = last (past h);
                h1 = h\<lparr>past := butlast (past h)\<rparr>;
                h2 = h1\<lparr>future := future h1 @ [present h1]\<rparr>
            in (True, store_setState (w\<lparr>history := h2\<rparr>) (PObj previous) False)))"

definition redo :: "world \<Rightarrow> bool \<times> world" where
  "redo w =
     (let h = history w
      in if future h = [] then (False, w)
         else
           (let next = last (future h);
                h1 = h\<lparr>future := butlast (future h)\<rparr>;
                h2 = h1\<lparr>past := past h1 @ [present h1]\<rparr>
            in (True, store_setState (w\<lparr>history := h2\<rparr>) (PObj next) False)))"

definition canUndo :: "world \<Rightarrow> bool" where
  "canUndo w = (length (past (history w)) > 0)"

definition canRedo :: "world \<Rightarrow> bool" where
  "canRedo w = (length (future (history w)) > 0)"

section \<open>Reading the record of invocations\<close>

fun listener_callback :: "listener \<Rightarrow> nat" where
  "listener_callback (Direct cb) = cb"
| "listener_callback (FieldWatch c key cb) = cb"
| "listener_callback (HistoryWatch c cb) = cb"

fun call_callback :: "call \<Rightarrow> nat" where
  "call_callback (StateCall cb s p) = cb"
| "call_callback (FieldCall cb v p) = cb"
| "call_callback (ChangeCall cb) = cb"

text \<open>The invocations of the callback \<open>cb\<close>, in order.\<close>

definition invocations :: "nat \<Rightarrow> call list \<Rightarrow> call list" where
  "invocations cb cs = filter (\<lambda>c. call_callback c = cb) cs"

section \<open>The history invariant\<close>

text \<open>
  A tracker in good order: a positive bound that the past respects, an empty future, a state
  allocated before, the tracker's closure among the subscribers, and the newest past entry
  not the current state.
\<close>

fun is_HistoryWatch :: "listener \<Rightarrow> bool" where
  "is_HistoryWatch (HistoryWatch c cb) = True"
| "is_HistoryWatch _ = False"

definition history_ok :: "world \<Rightarrow> bool" where
  "history_ok w =
     (1 \<le> maxSize w
      \<and> int (length (past (history w))) \<le> maxSize w
      \<and> future (history w) = []
      \<and> ref (state w) < next_ref w
      \<and> list_ex is_HistoryWatch (listeners w)
      \<and> (past (history w) = [] \<or> ref (last (past (history w))) \<noteq> ref (state w)))"

text \<open>What one notification pass leaves in the history record.\<close>

definition recorded :: "obj \<Rightarrow> world \<Rightarrow> bool" where
  "recorded p w = (future (history w) = [] \<and> past (history w) \<noteq> [] \<and> last (past (history w)) = p)"

section \<open>Example stores\<close>

text \<open>
  A hybrid store over \<^verbatim>\<open>{ user: null }\<close> with one plain subscriber; an operation that rejects
  with the string \<^verbatim>\<open>'boom'\<close> and one that resolves with \<^verbatim>\<open>{ user: 'bob' }\<close>, neither touching
  the store; a counter store \<^verbatim>\<open>{ count: 0 }\<close> with a mounted history tracker of bound \<open>n\<close>;
  and the mutation \<^verbatim>\<open>store.setState({ count: c })\<close>.
\<close>

definition user_store :: world where
  "user_store =
     snd (subscribe (createHybridStore \<lparr>ref = 0, props = [(''user'', VNull)]\<rparr> 1000) 1
            \<lparr>fireImmediately = None\<rparr>)"

definition failing_operation :: "world \<Rightarrow> outcome \<times> world" where
  "failing_operation w = (Rejected (VStr ''boom''), w)"

definition login_operation :: "world \<Rightarrow> outcome \<times> world" where
  "login_operation w = (Resolved (VObj 50 [(''user'', VStr ''bob'')]), w)"

definition counter_store :: "int \<Rightarrow> world" where
  "counter_store n = useHistoryState (createStore \<lparr>ref = 0, props = [(''count'', VNum 0)]\<rparr>) n 7"

definition set_count :: "world \<Rightarrow> int \<Rightarrow> world" where
  "set_count w c = setState_literal w [(''count'', VNum c)]"

section \<open>Facts about notification\<close>

lemma strict_eq_refl: "strict_eq v v"
  by (cases v) (simp_all add: strict_eq_def)

lemma fold_notify_frame:
  "state (fold (notify s p) ls w) = state w \<and> listeners (fold (notify s p) ls w) = listeners w
   \<and> next_ref (fold (notify s p) ls w) = next_ref w \<and> maxSize (fold (notify s p) ls w) = maxSize w"
proof (induction ls arbitrary: w)
  case Nil
  show ?case by simp
next
  case (Cons l ls)
  show ?case by (cases l) (simp_all add: Cons.IH Let_def)
qed

lemma invocations_notify_other:
  "listener_callback l \<noteq> cb \<Longrightarrow> invocations cb (calls (notify s p l w)) = invocations cb (calls w)"
  by (cases l) (simp_all add: invocations_def Let_def)

lemma invocations_fold_notify_other:
  "cb \<notin> listener_callback ` set ls \<Longrightarrow>
   invocations cb (calls (fold (notify s p) ls w)) = invocations cb (calls w)"
proof (induction ls arbitrary: w)
  case Nil
  show ?case by simp
next
  case (Cons l ls)
  then show ?case by (simp add: invocations_notify_other)
qed

lemma fold_notify_Direct:
  "fold (notify s p) (map Direct cbs) w = w\<lparr>calls := calls w @ map (\<lambda>cb. StateCall cb s p) cbs\<rparr>"
  by (induction cbs arbitrary: w) simp_all

section \<open>Facts about property lists\<close>

lemma lookup_update: "lookup (AList.update k v ps) k' = (if k' = k then v else lookup ps k')"
  by (simp add: lookup_def update_conv')

lemma has_key_update: "has_key (AList.update k v ps) k' = (k' = k \<or> has_key ps k')"
  by (auto simp: has_key_def dom_update)

lemma lookup_Object_assign_other:
  "\<not> has_key src k \<Longrightarrow> lookup (Object_assign dest src) k = lookup dest k"
  unfolding Object_assign_def
proof (induction src arbitrary: dest)
  case Nil
  show ?case by simp
next
  case (Cons a src)
  then show ?case by (cases a) (auto simp: has_key_def lookup_update)
qed

lemma has_key_Object_assign:
  "has_key (Object_assign dest src) k = (has_key dest k \<or> has_key src k)"
  unfolding Object_assign_def
proof (induction src arbitrary: dest)
  case Nil
  show ?case by (simp add: has_key_def)
next
  case (Cons a src)
  show ?case
    by (cases a) (auto simp: Cons.IH has_key_update, auto simp: has_key_def)
qed

lemma fold_update_triv:
  "distinct (map fst ps) \<Longrightarrow> set qs \<subseteq> set ps \<Longrightarrow> fold (\<lambda>(k, v). AList.update k v) qs ps = ps"
proof (induction qs)
  case Nil
  show ?case by simp
next
  case (Cons a qs)
  obtain k v where a: "a = (k, v)" by (cases a)
  with Cons.prems have "map_of ps k = Some v" by simp
  then have "AList.update k v ps = ps" by (rule update_triv)
  with Cons a show ?case by simp
qed

lemma Object_assign_self: "distinct (map fst ps) \<Longrightarrow> Object_assign ps ps = ps"
  by (simp add: Object_assign_def fold_update_triv)

lemma calls_notify_mono: "set (calls w) \<subseteq> set (calls (notify s p l w))"
  by (cases l) (auto simp: Let_def)

lemma calls_fold_notify_mono: "set (calls w) \<subseteq> set (calls (fold (notify s p) ls w))"
proof (induction ls arbitrary: w)
  case Nil
  show ?case by simp
next
  case (Cons l ls)
  have "set (calls w) \<subseteq> set (calls (notify s p l w))" by (rule calls_notify_mono)
  also have "\<dots> \<subseteq> set (calls (fold (notify s p) ls (notify s p l w)))" by (rule Cons.IH)
  finally show ?case by simp
qed

lemma Direct_notified:
  "Direct cb \<in> set ls \<Longrightarrow> StateCall cb s p \<in> set (calls (fold (notify s p) ls w))"
proof (induction ls arbitrary: w)
  case Nil
  then show ?case by simp
next
  case (Cons l ls)
  show ?case
  proof (cases "l = Direct cb")
    case True
    have "StateCall cb s p \<in> set (calls (notify s p l w))" by (simp add: True)
    then show ?thesis using calls_fold_notify_mono by fastforce
  next
    case False
    with Cons show ?thesis by simp
  qed
qed

section \<open>Unfolding the examples\<close>

lemmas eval_defs = user_store_def failing_operation_def login_operation_def counter_store_def set_count_def
  subscribe_def createHybridStore_def createStore_def store_subscribe_def getState_def store_getState_def
  val_of_def setState_literal_def object_literal_def store_setState_def Object_assign_def Let_def
  wrapAsyncOperation_def default_async_options_def new_Error_def useHistoryState_def
  undo_def redo_def slice_from_def

section \<open>Claims about the container and the helper\<close>

text \<open>
  C6. Idempotence of \<^verbatim>\<open>setState\<close>: \<^verbatim>\<open>StoreHelper.setState(s)\<close> with \<^verbatim>\<open>s\<close> the very object the
  store holds leaves the whole world as it was: no subscriber is called, the record of
  invocations does not grow, and the stored state reference is the same.
\<close>

theorem setState_same_reference:
  "setState w (PObj (getState w)) = w"
  by (simp add: setState_def getState_def store_getState_def store_setState_def)

text \<open>
  C10. \<^verbatim>\<open>fireImmediately\<close>: \<^verbatim>\<open>StoreHelper.subscribe\<close> and \<^verbatim>\<open>StoreHelper.subscribeTo\<close> called with
  \<^verbatim>\<open>fireImmediately = true\<close> invoke the callback exactly once at subscription time, with the
  current state (respectively the current value of the field) as both arguments; with the
  option absent or false they invoke nothing. Subscribing leaves the state as it is.
\<close>

theorem fireImmediately_once:
  "calls (snd (subscribe w cb opts)) =
     calls w @ (if fireImmediately opts = Some True
                then [StateCall cb (getState w) (getState w)] else [])
   \<and> calls (snd (subscribeTo w key cb opts)) =
     calls w @ (if fireImmediately opts = Some True
                then [FieldCall cb (js_get (getState w) key) (js_get (getState w) key)] else [])
   \<and> state (snd (subscribe w cb opts)) = state w
   \<and> state (snd (subscribeTo w key cb opts)) = state w"
  by (cases "fireImmediately opts")
     (simp_all add: subscribe_def subscribeTo_def store_subscribe_def getState_def
        store_getState_def Let_def)

text \<open>
  C7. Field-subscription filtering: let \<open>cb\<close> be a callback that no subscriber of the store
  uses yet, registered by \<^verbatim>\<open>subscribeTo(key, cb)\<close>. Then any \<^verbatim>\<open>setState\<close> of the store, merging
  or replacing, invokes \<open>cb\<close> exactly when the new state's value at \<open>key\<close> is not
  \<^verbatim>\<open>===\<close> the previous state's, once, with (new value, previous value); when the field keeps
  its reference, \<open>cb\<close> is not invoked.
\<close>

theorem subscribeTo_filter:
  assumes fresh: "cb \<notin> listener_callback ` set (listeners w)"
  shows "(let w1 = snd (subscribeTo w key cb opts);
              w2 = store_setState w1 p r
          in invocations cb (calls w2) =
               invocations cb (calls w1) @
                 (if strict_eq (js_get (state w2) key) (js_get (state w1) key) then []
                  else [FieldCall cb (js_get (state w2) key) (js_get (state w1) key)]))"
proof -
  define w1 where "w1 = snd (subscribeTo w key cb opts)"
  have ls: "listeners w1 = listeners w @ [FieldWatch (next_ref w) key cb]"
    using fresh
    by (auto simp: w1_def subscribeTo_def store_subscribe_def Let_def image_iff
             dest!: bspec[where x="FieldWatch (next_ref w) key cb"])
  have step: "invocations cb (calls (fold (notify s (state w1)) (listeners w1) v)) =
        invocations cb (calls v) @
          (if strict_eq (js_get s key) (js_get (state w1) key) then []
           else [FieldCall cb (js_get s key) (js_get (state w1) key)])" for s v
  proof -
    let ?v' = "fold (notify s (state w1)) (listeners w) v"
    have "fold (notify s (state w1)) (listeners w1) v =
          notify s (state w1) (FieldWatch (next_ref w) key cb) ?v'"
      by (simp add: ls)
    moreover have "invocations cb (calls ?v') = invocations cb (calls v)"
      using fresh by (rule invocations_fold_notify_other)
    ultimately show ?thesis
      by (simp add: invocations_def)
  qed
  have "invocations cb (calls (store_setState w1 p r)) =
          invocations cb (calls w1) @
            (if strict_eq (js_get (state (store_setState w1 p r)) key) (js_get (state w1) key)
             then []
             else [FieldCall cb (js_get (state (store_setState w1 p r)) key)
                     (js_get (state w1) key)])"
  proof (cases p)
    case (PObj q)
    show ?thesis
      by (simp add: PObj store_setState_def Let_def object_literal_def strict_eq_refl
            fold_notify_frame step split: prod.splits)
  next
    case (PFun f)
    show ?thesis
      by (simp add: PFun store_setState_def produce_def Let_def object_literal_def strict_eq_refl
            fold_notify_frame step split: prod.splits)
  qed
  then show ?thesis by (simp add: w1_def Let_def)
qed

text \<open>
  The store \<^verbatim>\<open>{ count: 0, step: 1 }\<close> with a watcher of \<^verbatim>\<open>count\<close>: \<^verbatim>\<open>setState({ step: 2 })\<close>
  does not invoke the watcher.
\<close>

theorem subscribeTo_filter_witness:
  "(1::nat) \<notin> listener_callback `
       set (listeners (createStore \<lparr>ref = 1, props = [(''count'', VNum 0), (''step'', VNum 1)]\<rparr>))
   \<and> invocations 1
        (calls (store_setState
           (snd (subscribeTo
                  (createStore \<lparr>ref = 1, props = [(''count'', VNum 0), (''step'', VNum 1)]\<rparr>)
                  ''count'' 1 \<lparr>fireImmediately = None\<rparr>))
           (PObj \<lparr>ref = 0, props = [(''step'', VNum 2)]\<rparr>) False)) = []"
proof -
  let ?w = "createStore \<lparr>ref = 1, props = [(''count'', VNum 0), (''step'', VNum 1)]\<rparr>"
  have h: "(1::nat) \<notin> listener_callback ` set (listeners ?w)"
    by (simp add: createStore_def)
  show ?thesis
    using h subscribeTo_filter [OF h, of "''count''" "\<lparr>fireImmediately = None\<rparr>"
        "PObj \<lparr>ref = 0, props = [(''step'', VNum 2)]\<rparr>" False]
    by (simp add: Let_def createStore_def subscribeTo_def store_subscribe_def getState_def
          store_getState_def store_setState_def object_literal_def Object_assign_def js_get_def
          lookup_def strict_eq_def invocations_def)
qed

text \<open>
  C8. A function-valued updater under the deep strategy: \<^verbatim>\<open>deepMergeState(s, f, opts)\<close> never
  applies \<open>f\<close>; it returns a new object (at the next free address) with the properties of
  \<open>s\<close>. So, for a store whose state was allocated before (its address is below the
  allocator) and has each key once, \<^verbatim>\<open>mergeState(f, 'deep')\<close> commits a state at a new address
  with the same properties, and every plain subscriber is called with (new state, old state)
  although no property changed.
\<close>

theorem deep_merge_ignores_function:
  assumes wf: "ref (state w) < next_ref w"
    and keys: "distinct (map fst (props (state w)))"
  shows "deepMergeState n s (PFun f) opts = (\<lparr>ref = n, props = props s\<rparr>, Suc n)
    \<and> ref (state (mergeState w (PFun f) Deep)) \<noteq> ref (state w)
    \<and> props (state (mergeState w (PFun f) Deep)) = props (state w)
    \<and> (\<forall>cb. Direct cb \<in> set (listeners w) \<longrightarrow>
          StateCall cb (state (mergeState w (PFun f) Deep)) (state w)
            \<in> set (calls (mergeState w (PFun f) Deep)))"
proof -
  let ?s' = "\<lparr>ref = Suc (next_ref w), props = props (state w)\<rparr>"
  let ?w2 = "w\<lparr>next_ref := Suc (Suc (next_ref w)), state := ?s'\<rparr>"
  have dm: "deepMergeState n s (PFun f) opts = (\<lparr>ref = n, props = props s\<rparr>, Suc n)" for n s opts
    by (simp add: deepMergeState_def Let_def)
  have ms: "mergeState w (PFun f) Deep = fold (notify ?s' (state w)) (listeners w) ?w2"
    using wf
    by (simp add: mergeState_def dm getState_def store_getState_def setState_def
          store_setState_def object_literal_def Let_def Object_assign_self [OF keys])
  have st: "state (mergeState w (PFun f) Deep) = ?s'"
    by (simp add: ms fold_notify_frame)
  show ?thesis
    using wf by (simp add: dm st) (simp add: ms Direct_notified)
qed

text \<open>
  The store \<^verbatim>\<open>{ count: 0 }\<close> with one subscriber and the updater
  \<^verbatim>\<open>(draft) => { draft.count = 5 }\<close>: the count stays 0 and the subscriber is called once.
\<close>

theorem deep_merge_ignores_function_witness:
  "ref (state (snd (subscribe (createStore \<lparr>ref = 0, props = [(''count'', VNum 0)]\<rparr>) 1
          \<lparr>fireImmediately = None\<rparr>)))
     < next_ref (snd (subscribe (createStore \<lparr>ref = 0, props = [(''count'', VNum 0)]\<rparr>) 1
          \<lparr>fireImmediately = None\<rparr>))
   \<and> distinct (map fst (props (state (snd (subscribe
          (createStore \<lparr>ref = 0, props = [(''count'', VNum 0)]\<rparr>) 1
          \<lparr>fireImmediately = None\<rparr>)))))
   \<and> state (mergeState
         (snd (subscribe (createStore \<lparr>ref = 0, props = [(''count'', VNum 0)]\<rparr>) 1
            \<lparr>fireImmediately = None\<rparr>))
         (PFun (AList.update ''count'' (VNum 5))) Deep) = \<lparr>ref = 2, props = [(''count'', VNum 0)]\<rparr>
   \<and> calls (mergeState
         (snd (subscribe (createStore \<lparr>ref = 0, props = [(''count'', VNum 0)]\<rparr>) 1
            \<lparr>fireImmediately = None\<rparr>))
         (PFun (AList.update ''count'' (VNum 5))) Deep) =
       [StateCall 1 \<lparr>ref = 2, props = [(''count'', VNum 0)]\<rparr>
          \<lparr>ref = 0, props = [(''count'', VNum 0)]\<rparr>]"
proof -
  let ?w = "snd (subscribe (createStore \<lparr>ref = 0, props = [(''count'', VNum 0)]\<rparr>) 1
              \<lparr>fireImmediately = None\<rparr>)"
  have w: "?w = \<lparr>state = \<lparr>ref = 0, props = [(''count'', VNum 0)]\<rparr>, listeners = [Direct 1],
      next_ref = 1, calls = [],
      history = \<lparr>past = [], present = \<lparr>ref = 0, props = [(''count'', VNum 0)]\<rparr>, future = []\<rparr>,
      maxSize = 10\<rparr>"
    by (simp add: subscribe_def createStore_def store_subscribe_def)
  have h1: "ref (state ?w) < next_ref ?w" unfolding w by simp
  have h2: "distinct (map fst (props (state ?w)))" unfolding w by simp
  have st: "state (mergeState ?w (PFun (AList.update ''count'' (VNum 5))) Deep) =
      \<lparr>ref = 2, props = [(''count'', VNum 0)]\<rparr>"
    using deep_merge_ignores_function [OF h1 h2, of 0 "state ?w" "AList.update ''count'' (VNum 5)"
        default_merge_options]
    unfolding w
    by (simp add: mergeState_def deepMergeState_def default_merge_options_def getState_def
          store_getState_def setState_def store_setState_def object_literal_def
          Object_assign_def Let_def)
  have cs: "calls (mergeState ?w (PFun (AList.update ''count'' (VNum 5))) Deep) =
      [StateCall 1 \<lparr>ref = 2, props = [(''count'', VNum 0)]\<rparr>
         \<lparr>ref = 0, props = [(''count'', VNum 0)]\<rparr>]"
    unfolding w
    by (simp add: mergeState_def deepMergeState_def default_merge_options_def getState_def
          store_getState_def setState_def store_setState_def object_literal_def
          Object_assign_def Let_def)
  from h1 h2 st cs show ?thesis by simp
qed

text \<open>
  C9. \<^verbatim>\<open>mergeState(partial, 'replace')\<close>: with a function the edited copy of the state is
  committed by \<^verbatim>\<open>setState\<close>, a shallow merge, so the new state's properties are the old
  ones overwritten by the draft's, and a key \<open>k\<close> of the state that the function deleted
  from the draft is still there with its old value; with an object \<open>p\<close> (not the current
  state itself) the new state is \<open>p\<close>, so a key absent from \<open>p\<close> is gone.
\<close>

theorem mergeState_replace_function_merges:
  assumes wf: "ref (state w) < next_ref w"
    and present: "has_key (props (state w)) k"
    and deleted: "\<not> has_key (f (props (state w))) k"
    and other: "ref p \<noteq> ref (state w)"
  shows "props (state (mergeState w (PFun f) ReplaceAll)) =
           Object_assign (props (state w)) (f (props (state w)))
    \<and> has_key (props (state (mergeState w (PFun f) ReplaceAll))) k
    \<and> js_get (state (mergeState w (PFun f) ReplaceAll)) k = js_get (state w) k
    \<and> state (mergeState w (PObj p) ReplaceAll) = p"
proof -
  have a: "props (state (mergeState w (PFun f) ReplaceAll)) =
           Object_assign (props (state w)) (f (props (state w)))"
    using wf
    by (simp add: mergeState_def getState_def store_getState_def setState_def
          store_setState_def object_literal_def Let_def fold_notify_frame)
  have b: "state (mergeState w (PObj p) ReplaceAll) = p"
    using other
    by (simp add: mergeState_def replaceState_def store_setState_def Let_def fold_notify_frame)
  show ?thesis
    using present deleted
    by (simp add: a b js_get_def has_key_Object_assign lookup_Object_assign_other)
qed

text \<open>
  The store \<^verbatim>\<open>{ a: 1, b: 2 }\<close>: the function \<^verbatim>\<open>(d) => { delete d.a; d.b = 3 }\<close> leaves
  \<^verbatim>\<open>{ a: 1, b: 3 }\<close>, the object \<^verbatim>\<open>{ b: 9 }\<close> leaves \<^verbatim>\<open>{ b: 9 }\<close>.
\<close>

theorem mergeState_replace_function_merges_witness:
  "ref (state (createStore \<lparr>ref = 2, props = [(''a'', VNum 1), (''b'', VNum 2)]\<rparr>))
     < next_ref (createStore \<lparr>ref = 2, props = [(''a'', VNum 1), (''b'', VNum 2)]\<rparr>)
   \<and> has_key (props (state (createStore \<lparr>ref = 2, props = [(''a'', VNum 1), (''b'', VNum 2)]\<rparr>)))
        ''a''
   \<and> \<not> has_key ((\<lambda>ps. AList.update ''b'' (VNum 3) (AList.delete ''a'' ps))
        (props (state (createStore \<lparr>ref = 2, props = [(''a'', VNum 1), (''b'', VNum 2)]\<rparr>)))) ''a''
   \<and> ref \<lparr>ref = 0, props = [(''b'', VNum 9)]\<rparr>
        \<noteq> ref (state (createStore \<lparr>ref = 2, props = [(''a'', VNum 1), (''b'', VNum 2)]\<rparr>))
   \<and> props (state (mergeState
         (createStore \<lparr>ref = 2, props = [(''a'', VNum 1), (''b'', VNum 2)]\<rparr>)
         (PFun (\<lambda>ps. AList.update ''b'' (VNum 3) (AList.delete ''a'' ps))) ReplaceAll))
       = [(''a'', VNum 1), (''b'', VNum 3)]
   \<and> props (state (mergeState
         (createStore \<lparr>ref = 2, props = [(''a'', VNum 1), (''b'', VNum 2)]\<rparr>)
         (PObj \<lparr>ref = 0, props = [(''b'', VNum 9)]\<rparr>) ReplaceAll))
       = [(''b'', VNum 9)]"
proof -
  let ?w = "createStore \<lparr>ref = 2, props = [(''a'', VNum 1), (''b'', VNum 2)]\<rparr>"
  let ?f = "\<lambda>ps. AList.update ''b'' (VNum 3) (AList.delete ''a'' ps)"
  let ?p = "\<lparr>ref = 0, props = [(''b'', VNum 9)]\<rparr>"
  have h1: "ref (state ?w) < next_ref ?w" by (simp add: createStore_def)
  have h2: "has_key (props (state ?w)) ''a''" by (simp add: createStore_def has_key_def)
  have h3: "\<not> has_key (?f (props (state ?w))) ''a''" by (simp add: createStore_def has_key_def)
  have h4: "ref ?p \<noteq> ref (state ?w)" by (simp add: createStore_def)
  have ps: "props (state ?w) = [(''a'', VNum 1), (''b'', VNum 2)]" by (simp add: createStore_def)
  from mergeState_replace_function_merges
         [where w = ?w and f = ?f and k = "''a''" and p = ?p, OF h1 h2 h3 h4]
  have "props (state (mergeState ?w (PFun ?f) ReplaceAll)) = [(''a'', VNum 1), (''b'', VNum 3)]"
    and "props (state (mergeState ?w (PObj ?p) ReplaceAll)) = [(''b'', VNum 9)]"
    by (simp_all add: ps Object_assign_def)
  with h1 h2 h3 h4 show ?thesis by simp
qed

section \<open>Claims about deepMergeState\<close>

lemma lookup_VArr_Some: "lookup ps k = VArr a xs \<Longrightarrow> map_of ps k = Some (VArr a xs)"
  by (simp add: lookup_def split: option.splits)

lemma map_of_has_key: "map_of ps k = Some v \<Longrightarrow> has_key ps k"
  by (auto simp: has_key_def dest: map_of_SomeD intro: rev_image_eqI)

lemma merge_source_other:
  "\<not> has_key ps k \<Longrightarrow> lookup (fst (merge_source am cl n t ps d)) k = lookup d k"
proof (induction ps arbitrary: n d)
  case Nil
  show ?case by simp
next
  case (Cons a ps)
  obtain k' v where a: "a = (k', v)" by (cases a)
  from Cons.prems a have ne: "k \<noteq> k'" and rest: "\<not> has_key ps k"
    by (auto simp: has_key_def)
  show ?case
    by (simp add: a Cons.IH [OF rest] lookup_update ne split: prod.splits)
qed

lemma merge_source_array:
  assumes "distinct (map fst ps)" and "map_of ps k = Some (VArr b ys)"
    and "map_of tps k = Some (VArr a xs)"
  shows "\<exists>n1. lookup (fst (merge_source am cl n (VObj r tps) ps d)) k =
           fst (arrayMerge_callback am n1 xs b ys)"
  using assms(1,2)
proof (induction ps arbitrary: n d)
  case Nil
  then show ?case by simp
next
  case (Cons e ps)
  obtain k' v where e: "e = (k', v)" by (cases e)
  have tk: "has_key tps k" using assms(3) by (rule map_of_has_key)
  show ?case
  proof (cases "k' = k")
    case True
    with Cons.prems e have v: "v = VArr b ys" and rest: "\<not> has_key ps k"
      by (auto simp: has_key_def)
    have safe: "\<not> propertyIsUnsafe (VObj r tps) k"
      by (simp add: propertyIsUnsafe_def tk)
    have tl: "lookup tps k = VArr a xs" using assms(3) by (simp add: lookup_def)
    show ?thesis
      by (rule exI [of _ n])
         (simp add: e True v safe tk tl merge_source_other [OF rest] lookup_update
            split: prod.splits)
  next
    case False
    with Cons.prems e have d: "distinct (map fst ps)" and m: "map_of ps k = Some (VArr b ys)"
      by auto
    from Cons.IH [OF d m] show ?thesis
      by (auto simp: e split: prod.splits)
  qed
qed

lemma arrayMerge_callback_MergeByIndex:
  "arrayMerge_callback MergeByIndex = arrayMerge_callback Replace"
  by (simp add: arrayMerge_callback_def fun_eq_iff)

lemma clone_MergeByIndex:
  "cloneUnlessOtherwiseSpecified MergeByIndex cl n v = cloneUnlessOtherwiseSpecified Replace cl n v"
  "clone_properties MergeByIndex cl n ps d = clone_properties Replace cl n ps d"
proof (induction MergeByIndex cl n v and MergeByIndex cl n ps d
       rule: cloneUnlessOtherwiseSpecified_clone_properties.induct)
qed (auto simp: arrayMerge_callback_MergeByIndex split: prod.splits)

lemma copy_target_MergeByIndex:
  "copy_target MergeByIndex cl n ps d = copy_target Replace cl n ps d"
  by (induction ps arbitrary: n d) (auto simp: clone_MergeByIndex split: prod.splits)

lemma deepmerge_MergeByIndex:
  "deepmerge MergeByIndex cl n t v = deepmerge Replace cl n t v"
  "merge_source MergeByIndex cl n t ps d = merge_source Replace cl n t ps d"
proof (induction MergeByIndex cl n t v and MergeByIndex cl n t ps d
       rule: deepmerge_merge_source.induct)
qed (auto simp: arrayMerge_callback_MergeByIndex clone_MergeByIndex copy_target_MergeByIndex
      split: prod.splits jsval.splits)

text \<open>
  C5. Deep-merge array policy: when the current state and the partial (an object with each
  key once) both hold an array at \<open>k\<close>, the merged state holds at \<open>k\<close>, under
  \<^verbatim>\<open>concat\<close>, a new array of the destination's elements followed by the source's, and under
  \<^verbatim>\<open>replace\<close> the source array itself; under \<^verbatim>\<open>merge-by-index\<close>, and with no policy given,
  the whole result is the one of \<^verbatim>\<open>replace\<close>.
\<close>

theorem deepMergeState_array_policy:
  assumes cur: "js_get current k = VArr a xs"
    and par: "js_get partial k = VArr b ys"
    and keys: "distinct (map fst (props partial))"
  shows "(\<exists>r. js_get (fst (deepMergeState n current (PObj partial)
                  \<lparr>arrayMerge = Some Concat, clone = c\<rparr>)) k = VArr r (xs @ ys))
    \<and> js_get (fst (deepMergeState n current (PObj partial)
                  \<lparr>arrayMerge = Some Replace, clone = c\<rparr>)) k = VArr b ys
    \<and> deepMergeState n current (PObj partial) \<lparr>arrayMerge = Some MergeByIndex, clone = c\<rparr> =
        deepMergeState n current (PObj partial) \<lparr>arrayMerge = Some Replace, clone = c\<rparr>
    \<and> deepMergeState n current (PObj partial) \<lparr>arrayMerge = None, clone = c\<rparr> =
        deepMergeState n current (PObj partial) \<lparr>arrayMerge = Some Replace, clone = c\<rparr>"
proof -
  have mc: "map_of (props current) k = Some (VArr a xs)"
    using cur by (simp add: js_get_def lookup_VArr_Some)
  have mp: "map_of (props partial) k = Some (VArr b ys)"
    using par by (simp add: js_get_def lookup_VArr_Some)
  have get: "\<exists>n1. js_get (fst (deepMergeState n current (PObj partial)
                 \<lparr>arrayMerge = Some am, clone = c\<rparr>)) k = fst (arrayMerge_callback am n1 xs b ys)"
    for am
  proof -
    let ?cl = "case c of None \<Rightarrow> True | Some c' \<Rightarrow> c'"
    obtain d0 n0 where ct: "copy_target am ?cl (Suc n) (props current) [] = (d0, n0)"
      by (cases "copy_target am ?cl (Suc n) (props current) []")
    from merge_source_array [OF keys mp mc, of am ?cl n0 "ref current" d0]
    obtain n1 where "lookup (fst (merge_source am ?cl n0 (VObj (ref current) (props current))
        (props partial) d0)) k = fst (arrayMerge_callback am n1 xs b ys)" ..
    then show ?thesis
      by (intro exI [of _ n1])
         (auto simp: deepMergeState_def val_of_def js_get_def ct Let_def split: prod.splits)
  qed
  from get [of Concat] have 1: "\<exists>r. js_get (fst (deepMergeState n current (PObj partial)
                  \<lparr>arrayMerge = Some Concat, clone = c\<rparr>)) k = VArr r (xs @ ys)"
    by (auto simp: arrayMerge_callback_def)
  from get [of Replace] have 2: "js_get (fst (deepMergeState n current (PObj partial)
                  \<lparr>arrayMerge = Some Replace, clone = c\<rparr>)) k = VArr b ys"
    by (auto simp: arrayMerge_callback_def)
  have 3: "deepMergeState n current (PObj partial) \<lparr>arrayMerge = Some MergeByIndex, clone = c\<rparr> =
        deepMergeState n current (PObj partial) \<lparr>arrayMerge = Some Replace, clone = c\<rparr>"
    by (simp add: deepMergeState_def deepmerge_MergeByIndex)
  have 4: "deepMergeState n current (PObj partial) \<lparr>arrayMerge = None, clone = c\<rparr> =
        deepMergeState n current (PObj partial) \<lparr>arrayMerge = Some Replace, clone = c\<rparr>"
    by (simp add: deepMergeState_def deepmerge_MergeByIndex)
  from 1 2 3 4 show ?thesis by blast
qed

text \<open>Merging \<^verbatim>\<open>{ items: [1, 2] }\<close> with \<^verbatim>\<open>{ items: [3] }\<close>.\<close>

theorem deepMergeState_array_policy_witness:
  "js_get \<lparr>ref = 0, props = [(''items'', VArr 1 [VNum 1, VNum 2])]\<rparr> ''items'' = VArr 1 [VNum 1, VNum 2]
   \<and> js_get \<lparr>ref = 2, props = [(''items'', VArr 3 [VNum 3])]\<rparr> ''items'' = VArr 3 [VNum 3]
   \<and> distinct (map fst (props \<lparr>ref = 2, props = [(''items'', VArr 3 [VNum 3])]\<rparr>))
   \<and> js_get (fst (deepMergeState 10 \<lparr>ref = 0, props = [(''items'', VArr 1 [VNum 1, VNum 2])]\<rparr>
          (PObj \<lparr>ref = 2, props = [(''items'', VArr 3 [VNum 3])]\<rparr>)
          \<lparr>arrayMerge = Some Concat, clone = None\<rparr>)) ''items'' = VArr 12 [VNum 1, VNum 2, VNum 3]
   \<and> js_get (fst (deepMergeState 10 \<lparr>ref = 0, props = [(''items'', VArr 1 [VNum 1, VNum 2])]\<rparr>
          (PObj \<lparr>ref = 2, props = [(''items'', VArr 3 [VNum 3])]\<rparr>)
          \<lparr>arrayMerge = Some Replace, clone = None\<rparr>)) ''items'' = VArr 3 [VNum 3]
   \<and> js_get (fst (deepMergeState 10 \<lparr>ref = 0, props = [(''items'', VArr 1 [VNum 1, VNum 2])]\<rparr>
          (PObj \<lparr>ref = 2, props = [(''items'', VArr 3 [VNum 3])]\<rparr>)
          default_merge_options)) ''items'' = VArr 3 [VNum 3]"
proof -
  let ?c = "\<lparr>ref = 0, props = [(''items'', VArr 1 [VNum 1, VNum 2])]\<rparr>"
  let ?p = "\<lparr>ref = 2, props = [(''items'', VArr 3 [VNum 3])]\<rparr>"
  have h1: "js_get ?c ''items'' = VArr 1 [VNum 1, VNum 2]" by (simp add: js_get_def lookup_def)
  have h2: "js_get ?p ''items'' = VArr 3 [VNum 3]" by (simp add: js_get_def lookup_def)
  have h3: "distinct (map fst (props ?p))" by simp
  have cc: "js_get (fst (deepMergeState 10 ?c (PObj ?p) \<lparr>arrayMerge = Some Concat, clone = None\<rparr>))
      ''items'' = VArr 12 [VNum 1, VNum 2, VNum 3]"
    by (simp add: deepMergeState_def val_of_def js_get_def lookup_def arrayMerge_callback_def
          propertyIsUnsafe_def has_key_def)
  from deepMergeState_array_policy [OF h1 h2 h3, of 10 None]
  have "js_get (fst (deepMergeState 10 ?c (PObj ?p) \<lparr>arrayMerge = Some Replace, clone = None\<rparr>))
      ''items'' = VArr 3 [VNum 3]"
    and "js_get (fst (deepMergeState 10 ?c (PObj ?p) default_merge_options)) ''items'' = VArr 3 [VNum 3]"
    by (simp_all add: default_merge_options_def)
  with h1 h2 h3 cc show ?thesis by simp
qed

section \<open>Claims about wrapAsyncOperation\<close>

lemma setState_literal_commit:
  assumes "ref (state w) \<noteq> next_ref w"
  shows "setState_literal w ps =
     fold (notify \<lparr>ref = Suc (next_ref w), props = Object_assign (props (state w)) ps\<rparr> (state w))
       (listeners w)
       (w\<lparr>next_ref := Suc (Suc (next_ref w)),
          state := \<lparr>ref = Suc (next_ref w), props = Object_assign (props (state w)) ps\<rparr>\<rparr>)"
  using assms
  by (simp add: setState_literal_def object_literal_def store_setState_def Let_def)

lemma state_setState_literal:
  "ref (state w) \<noteq> next_ref w \<Longrightarrow>
   state (setState_literal w ps) =
     \<lparr>ref = Suc (next_ref w), props = Object_assign (props (state w)) ps\<rparr>"
  by (simp add: setState_literal_commit fold_notify_frame)

lemma calls_setState_literal_Direct:
  "ref (state w) \<noteq> next_ref w \<Longrightarrow> listeners w = map Direct cbs \<Longrightarrow>
   calls (setState_literal w ps) =
     calls w @ map (\<lambda>cb. StateCall cb (state (setState_literal w ps)) (state w)) cbs"
  by (simp add: state_setState_literal) (simp add: setState_literal_commit fold_notify_Direct)

text \<open>
  C2. Failure atomicity: when the operation, started by \<^verbatim>\<open>wrapAsyncOperation\<close> with the
  default options, rejects with \<open>e\<close> and leaves a world \<open>w2\<close> whose state was allocated
  before and whose subscribers are the plain callbacks \<open>cbs\<close>, then the call throws an Error
  value (\<open>e\<close> itself when it is one, a new Error of \<^verbatim>\<open>String(e)\<close> otherwise), and the world at
  the throw is \<open>w2\<close> after one commit: every subscriber has been called exactly once more,
  with a new state in which \<^verbatim>\<open>_isLoading\<close> is false and \<^verbatim>\<open>_error\<close> is that Error, and with the
  state of \<open>w2\<close> as the previous one.
\<close>

theorem wrapAsyncOperation_failure_one_commit:
  assumes op: "operation (setState_literal w [(''_isLoading'', VBool True), (''_error'', VNull)])
                 = (Rejected e, w2)"
    and wf: "ref (state w2) < next_ref w2"
    and subs: "listeners w2 = map Direct cbs"
  shows "(case wrapAsyncOperation w operation default_async_options now of
            (Inr result, w') \<Rightarrow> False
          | (Inl errorObj, w') \<Rightarrow>
              instanceof_Error errorObj
              \<and> errorObj = (if instanceof_Error e then e else VErr (next_ref w2) (js_String e))
              \<and> js_get (state w') ''_isLoading'' = VBool False
              \<and> js_get (state w') ''_error'' = errorObj
              \<and> calls w' = calls w2 @ map (\<lambda>cb. StateCall cb (state w') (state w2)) cbs)"
proof (cases "instanceof_Error e")
  case True
  have ne: "ref (state w2) \<noteq> next_ref w2" using wf by simp
  show ?thesis
    using True
    by (simp add: wrapAsyncOperation_def default_async_options_def op Let_def
          calls_setState_literal_Direct [OF ne subs] state_setState_literal [OF ne]
          js_get_def Object_assign_def lookup_update)
next
  case False
  let ?w3 = "w2\<lparr>next_ref := Suc (next_ref w2)\<rparr>"
  have ne: "ref (state ?w3) \<noteq> next_ref ?w3" using wf by simp
  have subs3: "listeners ?w3 = map Direct cbs" using subs by simp
  show ?thesis
    using False
    by (simp add: wrapAsyncOperation_def default_async_options_def op Let_def new_Error_def
          calls_setState_literal_Direct [OF ne subs3] state_setState_literal [OF ne]
          js_get_def Object_assign_def lookup_update)
qed

text \<open>
  The example store and the operation that rejects with \<^verbatim>\<open>'boom'\<close>: the subscriber sees the
  pending commit and then one failure commit.
\<close>

theorem wrapAsyncOperation_failure_one_commit_witness:
  "fst (wrapAsyncOperation user_store failing_operation default_async_options 2000) =
     Inl (VErr 4 ''boom'')
   \<and> calls (snd (wrapAsyncOperation user_store failing_operation default_async_options 2000)) =
     [StateCall 1
        \<lparr>ref = 3, props = [(''data'', VObj 0 [(''user'', VNull)]), (''_isLoading'', VBool True),
                             (''_error'', VNull), (''_lastUpdate'', VNum 1000)]\<rparr>
        \<lparr>ref = 1, props = [(''data'', VObj 0 [(''user'', VNull)]), (''_isLoading'', VBool False),
                             (''_error'', VNull), (''_lastUpdate'', VNum 1000)]\<rparr>,
      StateCall 1
        \<lparr>ref = 6, props = [(''data'', VObj 0 [(''user'', VNull)]), (''_isLoading'', VBool False),
                             (''_error'', VErr 4 ''boom''), (''_lastUpdate'', VNum 2000)]\<rparr>
        \<lparr>ref = 3, props = [(''data'', VObj 0 [(''user'', VNull)]), (''_isLoading'', VBool True),
                             (''_error'', VNull), (''_lastUpdate'', VNum 1000)]\<rparr>]"
proof -
  let ?w2 = "setState_literal user_store [(''_isLoading'', VBool True), (''_error'', VNull)]"
  have w2: "?w2 = \<lparr>state = \<lparr>ref = 3, props = [(''data'', VObj 0 [(''user'', VNull)]),
                 (''_isLoading'', VBool True), (''_error'', VNull), (''_lastUpdate'', VNum 1000)]\<rparr>,
       listeners = [Direct 1], next_ref = 4,
       calls = [StateCall 1
         \<lparr>ref = 3, props = [(''data'', VObj 0 [(''user'', VNull)]), (''_isLoading'', VBool True),
                              (''_error'', VNull), (''_lastUpdate'', VNum 1000)]\<rparr>
         \<lparr>ref = 1, props = [(''data'', VObj 0 [(''user'', VNull)]), (''_isLoading'', VBool False),
                              (''_error'', VNull), (''_lastUpdate'', VNum 1000)]\<rparr>],
       history = \<lparr>past = [], present = \<lparr>ref = 1, props = [(''data'', VObj 0 [(''user'', VNull)]),
                 (''_isLoading'', VBool False), (''_error'', VNull), (''_lastUpdate'', VNum 1000)]\<rparr>,
                 future = []\<rparr>,
       maxSize = 10\<rparr>"
    by (simp add: eval_defs)
  have h1: "failing_operation ?w2 = (Rejected (VStr ''boom''), ?w2)"
    by (simp add: failing_operation_def)
  have h2: "ref (state ?w2) < next_ref ?w2" unfolding w2 by simp
  have h3: "listeners ?w2 = map Direct [1]" unfolding w2 by simp
  from wrapAsyncOperation_failure_one_commit
         [where operation = failing_operation and w = user_store and now = 2000, OF h1 h2 h3]
  show ?thesis
    by (simp add: eval_defs)
qed

text \<open>
  C3, as stated, fails: the settling commit of a resolved operation does not write \<^verbatim>\<open>data\<close>.
  The operation resolves with \<^verbatim>\<open>{ user: 'bob' }\<close>, the call returns it, and \<^verbatim>\<open>data\<close> is still
  the object \<^verbatim>\<open>{ user: null }\<close> the store was created with.
\<close>

theorem wrapAsyncOperation_success_leaves_data:
  "fst (wrapAsyncOperation user_store login_operation default_async_options 2000) =
     Inr (VObj 50 [(''user'', VStr ''bob'')])
   \<and> js_get (state (snd (wrapAsyncOperation user_store login_operation default_async_options 2000)))
       ''data'' = VObj 0 [(''user'', VNull)]
   \<and> js_get (state user_store) ''data'' = VObj 0 [(''user'', VNull)]"
  by (simp add: eval_defs js_get_def lookup_def)

text \<open>
  C3, amended. Success commit: when the operation resolves with \<open>r\<close> and leaves a world
  \<open>w2\<close> whose state was allocated before, the call returns \<open>r\<close>, and the state at the
  return has \<^verbatim>\<open>_isLoading\<close> false, \<^verbatim>\<open>_error\<close> null, \<^verbatim>\<open>_lastUpdate\<close> the current time, and every
  other property, \<^verbatim>\<open>data\<close> included, as in \<open>w2\<close>.
\<close>

theorem wrapAsyncOperation_success_commit:
  assumes op: "operation (if setLoading options
                 then setState_literal w [(''_isLoading'', VBool True), (''_error'', VNull)]
                 else w) = (Resolved r, w2)"
    and wf: "ref (state w2) < next_ref w2"
  shows "(case wrapAsyncOperation w operation options now of
            (Inl errorObj, w') \<Rightarrow> False
          | (Inr result, w') \<Rightarrow>
              result = r
              \<and> js_get (state w') ''_isLoading'' = VBool False
              \<and> js_get (state w') ''_error'' = VNull
              \<and> js_get (state w') ''_lastUpdate'' = VNum now
              \<and> (\<forall>k. k \<notin> {''_isLoading'', ''_error'', ''_lastUpdate''} \<longrightarrow>
                    js_get (state w') k = js_get (state w2) k))"
proof -
  have ne: "ref (state w2) \<noteq> next_ref w2" using wf by simp
  have other: "lookup (Object_assign ps
        [(''_isLoading'', VBool False), (''_error'', VNull), (''_lastUpdate'', VNum now)]) k =
        lookup ps k" if "k \<notin> {''_isLoading'', ''_error'', ''_lastUpdate''}" for k ps
    using that by (intro lookup_Object_assign_other) (simp add: has_key_def)
  show ?thesis
    using op
    by (simp add: wrapAsyncOperation_def Let_def state_setState_literal [OF ne] js_get_def other)
       (simp add: Object_assign_def lookup_update)
qed

theorem wrapAsyncOperation_success_commit_witness:
  "login_operation (setState_literal user_store [(''_isLoading'', VBool True), (''_error'', VNull)]) =
     (Resolved (VObj 50 [(''user'', VStr ''bob'')]),
      setState_literal user_store [(''_isLoading'', VBool True), (''_error'', VNull)])
   \<and> ref (state (setState_literal user_store [(''_isLoading'', VBool True), (''_error'', VNull)]))
       < next_ref (setState_literal user_store [(''_isLoading'', VBool True), (''_error'', VNull)])
   \<and> state (snd (wrapAsyncOperation user_store login_operation default_async_options 2000)) =
       \<lparr>ref = 5, props = [(''data'', VObj 0 [(''user'', VNull)]), (''_isLoading'', VBool False),
                            (''_error'', VNull), (''_lastUpdate'', VNum 2000)]\<rparr>"
proof -
  let ?w2 = "setState_literal user_store [(''_isLoading'', VBool True), (''_error'', VNull)]"
  have h1: "login_operation (if setLoading default_async_options then ?w2 else user_store) =
      (Resolved (VObj 50 [(''user'', VStr ''bob'')]), ?w2)"
    by (simp add: login_operation_def default_async_options_def)
  have h2: "ref (state ?w2) < next_ref ?w2" by (simp add: eval_defs)
  from wrapAsyncOperation_success_commit
         [where operation = login_operation and w = user_store and now = 2000
            and options = default_async_options, OF h1 h2]
  show ?thesis
    by (simp add: eval_defs)
qed

section \<open>Claims about the history tracker\<close>

text \<open>
  C1. Undo/redo round trip, on the code: the counter store goes from \<^verbatim>\<open>{ count: 0 }\<close> to 1 and
  to 2. The first \<^verbatim>\<open>undo()\<close> returns true and the count is 1; but the commit it makes is
  recorded by the tracker's own subscriber as a new mutation, which empties \<^verbatim>\<open>future\<close>, so
  \<^verbatim>\<open>redo()\<close> returns false right after it; the second \<^verbatim>\<open>undo()\<close> returns true and the
  count is 2 again, not 0; and \<^verbatim>\<open>redo()\<close> then returns false and changes nothing.
\<close>

theorem undo_twice_returns_to_latest:
  "(let wC = set_count (set_count (counter_store 10) 1) 2;
        (r1, w1) = undo wC;
        (r2, w2) = undo w1;
        (r3, w3) = redo w2
    in r1 \<and> props (state w1) = [(''count'', VNum 1)] \<and> future (history w1) = []
       \<and> fst (redo w1) = False
       \<and> r2 \<and> props (state w2) = [(''count'', VNum 2)]
       \<and> r3 = False \<and> props (state w3) = [(''count'', VNum 2)])"
  by (simp add: eval_defs)

text \<open>
  C4. History bound, on the code with \<^verbatim>\<open>maxSize = 0\<close>: \<^verbatim>\<open>slice(-0)\<close> keeps the whole array,
  so after two mutations the past holds both predecessor states, more than the bound.
\<close>

theorem maxSize_zero_unbounded:
  "map props (past (history (set_count (set_count (counter_store 0) 1) 2))) =
     [[(''count'', VNum 0)], [(''count'', VNum 1)]]
   \<and> maxSize (set_count (set_count (counter_store 0) 1) 2) = 0"
  by (simp add: eval_defs)

text \<open>
  With a positive bound the history is bounded. With \<^verbatim>\<open>maxSize = 3\<close>, five mutations leave
  the three most recent predecessor states, oldest first.
\<close>

lemma history_keeps_three_latest:
  "map props (past (history
      (set_count (set_count (set_count (set_count (set_count (counter_store 3) 1) 2) 3) 4) 5))) =
     [[(''count'', VNum 2)], [(''count'', VNum 3)], [(''count'', VNum 4)]]"
  by (simp add: eval_defs)

text \<open>
  In general: a tracker mounted with a bound of at least 1 on a store whose state was
  allocated before is in good order, and every \<^verbatim>\<open>setState\<close> (replacing only by an object
  allocated before), \<^verbatim>\<open>undo()\<close> and \<^verbatim>\<open>redo()\<close> keeps it so; in particular the past never
  exceeds the bound.
\<close>

lemma length_slice_from: "1 \<le> n \<Longrightarrow> int (length (slice_from (- n) xs)) \<le> n"
  by (simp add: slice_from_def)

lemma last_slice_from:
  "1 \<le> n \<Longrightarrow> xs \<noteq> [] \<Longrightarrow> slice_from (- n) xs \<noteq> [] \<and> last (slice_from (- n) xs) = last xs"
proof -
  assume n: "1 \<le> n" and xs: "xs \<noteq> []"
  let ?d = "nat (max (int (length xs) - n) 0)"
  from n xs have d: "?d < length xs" by (cases xs) auto
  then have "drop ?d xs \<noteq> []" and "last (drop ?d xs) = last xs"
    by (simp_all add: last_drop)
  with n show ?thesis by (simp add: slice_from_def)
qed

lemma notify_bound:
  "1 \<le> maxSize w \<Longrightarrow> int (length (past (history w))) \<le> maxSize w \<Longrightarrow>
   int (length (past (history (notify s p l w)))) \<le> maxSize w \<and> maxSize (notify s p l w) = maxSize w"
  by (cases l) (simp_all add: Let_def length_slice_from)

lemma fold_notify_bound:
  "1 \<le> maxSize w \<Longrightarrow> int (length (past (history w))) \<le> maxSize w \<Longrightarrow>
   int (length (past (history (fold (notify s p) ls w)))) \<le> maxSize w"
proof (induction ls arbitrary: w)
  case Nil
  then show ?case by simp
next
  case (Cons l ls)
  from notify_bound [OF Cons.prems, of s p l]
  have b: "int (length (past (history (notify s p l w)))) \<le> maxSize (notify s p l w)"
    and m: "maxSize (notify s p l w) = maxSize w" by simp_all
  from Cons.prems(1) m have "1 \<le> maxSize (notify s p l w)" by simp
  from Cons.IH [OF this b] show ?case by (simp add: m)
qed

lemma notify_recorded:
  "1 \<le> maxSize w \<Longrightarrow> ref s \<noteq> ref p \<Longrightarrow> recorded p w \<or> is_HistoryWatch l \<Longrightarrow>
   recorded p (notify s p l w)"
  by (cases l) (auto simp: recorded_def Let_def last_slice_from)

lemma fold_notify_recorded:
  "1 \<le> maxSize w \<Longrightarrow> ref s \<noteq> ref p \<Longrightarrow> recorded p w \<or> list_ex is_HistoryWatch ls \<Longrightarrow>
   recorded p w \<or> ls \<noteq> [] \<Longrightarrow> recorded p (fold (notify s p) ls w)"
proof (induction ls arbitrary: w)
  case Nil
  then show ?case by simp
next
  case (Cons l ls)
  have m: "maxSize (notify s p l w) = maxSize w"
    by (cases l) (simp_all add: Let_def)
  show ?case
  proof (cases "recorded p w \<or> is_HistoryWatch l")
    case True
    with Cons.prems have "recorded p (notify s p l w)" by (intro notify_recorded)
    with Cons.IH [of "notify s p l w"] Cons.prems(1,2) m show ?thesis by simp
  next
    case False
    with Cons.prems(3) have ex: "list_ex is_HistoryWatch ls" by simp
    then have "ls \<noteq> []" by auto
    with Cons.IH [of "notify s p l w"] Cons.prems(1,2) m ex show ?thesis by simp
  qed
qed

text \<open>A committed change through a subscribed tracker with a positive bound.\<close>

lemma commit_history_ok:
  assumes m: "1 \<le> maxSize w" and b: "int (length (past (history w))) \<le> maxSize w"
    and hw: "list_ex is_HistoryWatch (listeners w)"
    and ne: "ref s \<noteq> ref (state w)" and fresh: "ref s < n"
  shows "history_ok (fold (notify s (state w)) (listeners w) (w\<lparr>next_ref := n, state := s\<rparr>))"
proof -
  let ?v = "w\<lparr>next_ref := n, state := s\<rparr>"
  let ?r = "fold (notify s (state w)) (listeners w) ?v"
  from hw have nonempty: "listeners w \<noteq> []" by auto
  have 1: "int (length (past (history ?r))) \<le> maxSize ?v"
    using m b by (intro fold_notify_bound) simp_all
  have 2: "recorded (state w) ?r"
    using m ne hw nonempty by (intro fold_notify_recorded) simp_all
  show ?thesis
    using m 1 2 ne fresh hw
    by (simp add: history_ok_def fold_notify_frame recorded_def)
qed

lemma store_setState_history_ok:
  assumes ok: "history_ok w"
    and allocated: "case partial of PObj q \<Rightarrow> \<not> replace \<or> ref q < next_ref w | PFun f \<Rightarrow> True"
  shows "history_ok (store_setState w partial replace)"
proof (cases partial)
  case (PObj q)
  show ?thesis
  proof (cases "ref q = ref (state w)")
    case True
    with ok show ?thesis by (simp add: PObj store_setState_def)
  next
    case False
    show ?thesis
    proof (cases replace)
      case True
      with allocated PObj have q: "ref q < next_ref w" by simp
      have "history_ok (fold (notify q (state w)) (listeners w) (w\<lparr>next_ref := next_ref w, state := q\<rparr>))"
        using ok False q by (intro commit_history_ok) (simp_all add: history_ok_def)
      with False True show ?thesis by (simp add: PObj store_setState_def Let_def)
    next
      case r: False
      let ?s = "\<lparr>ref = next_ref w, props = Object_assign (props (state w)) (props q)\<rparr>"
      have "history_ok (fold (notify ?s (state w)) (listeners w)
              (w\<lparr>next_ref := Suc (next_ref w), state := ?s\<rparr>))"
        using ok by (intro commit_history_ok) (simp_all add: history_ok_def)
      with False r show ?thesis
        by (simp add: PObj store_setState_def object_literal_def Let_def)
    qed
  qed
next
  case (PFun f)
  show ?thesis
  proof (cases "f (props (state w)) = props (state w)")
    case True
    with ok show ?thesis by (simp add: PFun store_setState_def produce_def)
  next
    case False
    let ?w0 = "w\<lparr>next_ref := Suc (next_ref w)\<rparr>"
    let ?q = "\<lparr>ref = next_ref w, props = f (props (state w))\<rparr>"
    have ne: "ref ?q \<noteq> ref (state ?w0)" using ok by (simp add: history_ok_def)
    show ?thesis
    proof (cases replace)
      case True
      have "history_ok (fold (notify ?q (state ?w0)) (listeners ?w0)
              (?w0\<lparr>next_ref := Suc (next_ref w), state := ?q\<rparr>))"
        using ok by (intro commit_history_ok) (simp_all add: history_ok_def)
      with False True ne show ?thesis
        by (simp add: PFun store_setState_def produce_def object_literal_def Let_def)
    next
      case r: False
      let ?s = "\<lparr>ref = Suc (next_ref w), props = Object_assign (props (state w)) (props ?q)\<rparr>"
      have "history_ok (fold (notify ?s (state ?w0)) (listeners ?w0)
              (?w0\<lparr>next_ref := Suc (Suc (next_ref w)), state := ?s\<rparr>))"
        using ok by (intro commit_history_ok) (simp_all add: history_ok_def)
      with False r ne show ?thesis
        by (simp add: PFun store_setState_def produce_def object_literal_def Let_def)
    qed
  qed
qed

lemma undo_history_ok:
  assumes ok: "history_ok w"
  shows "history_ok (snd (undo w))"
proof (cases "past (history w) = []")
  case True
  with ok show ?thesis by (simp add: undo_def)
next
  case False
  let ?h = "(history w)\<lparr>past := butlast (past (history w)),
                         future := future (history w) @ [present (history w)]\<rparr>"
  let ?w1 = "w\<lparr>history := ?h\<rparr>"
  let ?prev = "last (past (history w))"
  let ?s = "\<lparr>ref = next_ref w, props = Object_assign (props (state w)) (props ?prev)\<rparr>"
  from ok False have ne: "ref ?prev \<noteq> ref (state w)" by (simp add: history_ok_def)
  have "history_ok (fold (notify ?s (state ?w1)) (listeners ?w1)
          (?w1\<lparr>next_ref := Suc (next_ref w), state := ?s\<rparr>))"
    using ok by (intro commit_history_ok) (auto simp: history_ok_def)
  with False ne show ?thesis
    by (simp add: undo_def store_setState_def object_literal_def Let_def)
qed

lemma redo_history_ok:
  "history_ok w \<Longrightarrow> snd (redo w) = w \<and> fst (redo w) = False"
  by (simp add: redo_def history_ok_def)

lemma useHistoryState_history_ok:
  "1 \<le> n \<Longrightarrow> ref (state w) < next_ref w \<Longrightarrow> history_ok (useHistoryState w n cb)"
  by (auto simp: useHistoryState_def history_ok_def store_subscribe_def store_getState_def Let_def
        list_ex_iff intro: bexI [where x = "HistoryWatch (next_ref w) cb"])

lemma history_ok_bound:
  "history_ok w \<Longrightarrow> int (length (past (history w))) \<le> maxSize w"
  by (simp add: history_ok_def)

text \<open>
  So, for every tracker in good order, \<^verbatim>\<open>redo()\<close> fails right after \<^verbatim>\<open>undo()\<close>: the commit
  that \<^verbatim>\<open>undo()\<close> makes has emptied \<^verbatim>\<open>future\<close>.
\<close>

lemma redo_after_undo_fails:
  assumes "history_ok w"
  shows "fst (redo (snd (undo w))) = False \<and> future (history (snd (undo w))) = []"
proof -
  from assms have ok: "history_ok (snd (undo w))" by (rule undo_history_ok)
  then have "fst (redo (snd (undo w))) = False" by (simp add: redo_history_ok)
  moreover from ok have "future (history (snd (undo w))) = []" by (simp add: history_ok_def)
  ultimately show ?thesis by simp
qed

end
